theory Spec2Isabelle
  imports Main "HOL-Library.AList"
begin

section \<open>Data model\<close>

text \<open>
  The classes of \<^verbatim>\<open>student_code.py\<close> share one field, \<^verbatim>\<open>self.adj\<close>: a Python
  dictionary from a node to the list of its out-neighbours. A dictionary iterates in
  insertion order, and \<^verbatim>\<open>topsort\<close>, \<^verbatim>\<open>dfs\<close> and \<^verbatim>\<open>bfs\<close> depend on that order, so
  the dictionary is an association list in insertion order. Lookup is \<^const>\<open>map_of\<close>,
  the assignment \<^verbatim>\<open>d[k] = v\<close> is \<^const>\<open>AList.update\<close> (an existing key keeps its
  place, a new key goes to the end). A dictionary holds each key once; the insertion
  methods below keep it so, and no theorem of this file needs it as an assumption.
\<close>

type_synonym 'a graph = "('a \<times> 'a list) list"

text \<open>
  The exceptions the code can raise: \<^verbatim>\<open>KeyError\<close> from the subscript \<^verbatim>\<open>self.adj[u]\<close>,
  and the \<^verbatim>\<open>ValueError\<close> of \<^verbatim>\<open>DAG.add_edge\<close>, whose message is built from \<^verbatim>\<open>u\<close>
  and \<^verbatim>\<open>v\<close>.
\<close>

datatype 'a error = KeyError 'a | ValueError 'a 'a

text \<open>\<^verbatim>\<open>SortableDigraph.__init__\<close>: \<^verbatim>\<open>self.adj = {}\<close>.\<close>

definition init :: "'a graph" where
  "init = []"

text \<open>\<^verbatim>\<open>self.adj.keys()\<close>, in iteration order.\<close>

definition keys :: "'a graph \<Rightarrow> 'a list" where
  "keys g = map fst g"

text \<open>\<^verbatim>\<open>self.adj.get(node, [])\<close>.\<close>

definition adj_get :: "'a graph \<Rightarrow> 'a \<Rightarrow> 'a list" where
  "adj_get g n = (case map_of g n of None \<Rightarrow> [] | Some ns \<Rightarrow> ns)"

section \<open>SortableDigraph: insertion\<close>

text \<open>
  \<^verbatim>\<open>add_node\<close>: \<^verbatim>\<open>if node not in self.adj: self.adj[node] = []\<close>.
\<close>

definition add_node :: "'a graph \<Rightarrow> 'a \<Rightarrow> 'a graph" where
  "add_node g node = (if node \<notin> set (keys g) then AList.update node [] g else g)"

text \<open>
  \<^verbatim>\<open>add_edge\<close> of the base class: two calls of \<^verbatim>\<open>add_node\<close>, then
  \<^verbatim>\<open>self.adj[u].append(v)\<close>. The subscript raises \<^verbatim>\<open>KeyError\<close> on a missing key;
  the result is the exception raised, if any, and the graph after the call.
\<close>

definition add_edge :: "'a graph \<Rightarrow> 'a \<Rightarrow> 'a \<Rightarrow> 'a error option \<times> 'a graph" where
  "add_edge g u v =
     (let g1 = add_node g u;
          g2 = add_node g1 v
      in case map_of g2 u of
           None \<Rightarrow> (Some (KeyError u), g2)
         | Some ns \<Rightarrow> (None, AList.update u (ns @ [v]) g2))"

text \<open>
  Facts about the keys that the termination proofs below share: a node that is not a
  key has no neighbours, and visiting a key leaves fewer unvisited keys.
\<close>

lemma adj_get_not_key: "n \<notin> set (keys g) \<Longrightarrow> adj_get g n = []"
  by (simp add: adj_get_def keys_def map_of_eq_None_iff[THEN iffD2])

lemma card_keys_insert_less:
  "n \<in> set (keys g) \<Longrightarrow> n \<notin> vis \<Longrightarrow>
     card (set (keys g) - insert n vis) < card (set (keys g) - vis)"
  by (rule psubset_card_mono) auto

lemma card_keys_mono:
  "vis \<subseteq> vis' \<Longrightarrow> card (set (keys g) - vis') \<le> card (set (keys g) - vis)"
  by (rule card_mono) auto

section \<open>SortableDigraph: topological sort\<close>

text \<open>
  \<^verbatim>\<open>topsort\<close> keeps two local variables, the set \<^verbatim>\<open>visited\<close> and the list
  \<^verbatim>\<open>result\<close>, which the nested function \<^verbatim>\<open>visit\<close> updates in place: the pair is
  the state that \<open>visit\<close> takes and returns. \<open>visit_all\<close> is the loop
  \<^verbatim>\<open>for neighbor in ...: visit(neighbor)\<close>; the loop over the keys in the body of
  \<^verbatim>\<open>topsort\<close> has the same shape. The recursion is nested, so termination needs
  that a call only adds to \<^verbatim>\<open>visited\<close>; the measure is the number of unvisited
  keys, then the length of what is left of the list.
\<close>

function visit :: "'a graph \<Rightarrow> 'a \<Rightarrow> 'a set \<times> 'a list \<Rightarrow> 'a set \<times> 'a list"
  and visit_all :: "'a graph \<Rightarrow> 'a list \<Rightarrow> 'a set \<times> 'a list \<Rightarrow> 'a set \<times> 'a list" where
  "visit g node (visited, result) =
     (if node \<in> visited then (visited, result)
      else (case visit_all g (adj_get g node) (insert node visited, result) of
              (visited', result') \<Rightarrow> (visited', result' @ [node])))"
| "visit_all g [] s = s"
| "visit_all g (neighbor # rest) s = visit_all g rest (visit g neighbor s)"
  by pat_completeness auto

lemma visit_mono_dom:
  "visit_visit_all_dom (Inl (g, node, s)) \<Longrightarrow> fst s \<subseteq> fst (visit g node s)"
  "visit_visit_all_dom (Inr (g, ns, s)) \<Longrightarrow> fst s \<subseteq> fst (visit_all g ns s)"
proof (induction g node s and g ns s rule: visit_visit_all.pinduct)
  case (1 g node visited result)
  then show ?case
    by (auto simp: visit.psimps split: prod.splits)
next
  case (2 g s)
  then show ?case by (simp add: visit_all.psimps)
next
  case (3 g neighbor rest s)
  then show ?case by (auto simp: visit_all.psimps)
qed

termination visit
proof (relation "measures
    [\<lambda>x. case x of
       Inl (g, node, s) \<Rightarrow> card (set (keys g) - fst s)
     | Inr (g, ns, s) \<Rightarrow> card (set (keys g) - fst s),
     \<lambda>x. case x of
       Inl (g, node, s) \<Rightarrow> 1
     | Inr (g, ns, s) \<Rightarrow> 2 * length ns]", goal_cases)
  case 1
  then show ?case by simp
next
  case (2 g node visited result)
  show ?case
  proof (cases "node \<in> set (keys g)")
    case True
    from card_keys_insert_less[OF True 2] show ?thesis by simp
  next
    case False
    then have "set (keys g) - insert node visited = set (keys g) - visited" by auto
    with False show ?thesis by (simp add: adj_get_not_key)
  qed
next
  case (3 g neighbor rest s)
  then show ?case by simp
next
  case (4 g neighbor rest s)
  from card_keys_mono[OF visit_mono_dom(1)[OF 4], of g] show ?case by auto
qed

declare visit.simps [simp del]

text \<open>The body of \<^verbatim>\<open>topsort\<close>: visit every key, return \<^verbatim>\<open>result[::-1]\<close>.\<close>

definition topsort :: "'a graph \<Rightarrow> 'a list" where
  "topsort g = rev (snd (visit_all g (keys g) ({}, [])))"

section \<open>TraversableDigraph: depth-first and breadth-first traversal\<close>

text \<open>
  \<^verbatim>\<open>dfs\<close> tests its argument with \<^verbatim>\<open>start is None\<close>, and it does so again in every
  recursive call \<^verbatim>\<open>self.dfs(neighbor, visited)\<close>; a neighbour can be \<^verbatim>\<open>None\<close>, since
  \<^verbatim>\<open>add_edge\<close> accepts any hashable value. So for \<^verbatim>\<open>dfs\<close> a node is a Python value
  that may be \<^verbatim>\<open>None\<close>: the type \<open>'a option\<close>, with \<open>None\<close> for \<^verbatim>\<open>None\<close> and
  \<open>Some x\<close> for every other identifier.

  \<open>default_start\<close> is the first statement of the method: a start that is \<^verbatim>\<open>None\<close>
  becomes \<^verbatim>\<open>next(iter(self.adj.keys()))\<close>, the first key, or stays \<^verbatim>\<open>None\<close> on an
  empty dictionary.
\<close>

definition default_start :: "'a option graph \<Rightarrow> 'a option \<Rightarrow> 'a option" where
  "default_start g start =
     (case start of
        None \<Rightarrow> (if g \<noteq> [] then hd (keys g) else None)
      | Some s \<Rightarrow> start)"

text \<open>
  \<^verbatim>\<open>dfs\<close> is a generator; the model returns the list of the values it yields, in
  order, next to the shared set \<^verbatim>\<open>visited\<close>. \<open>dfs_from\<close> is the whole body of the
  method for a \<^verbatim>\<open>visited\<close> that is a set (what every recursive call passes): the
  default for the start, the return on a start that is still \<^verbatim>\<open>None\<close>, the return on
  a visited start, then \<^verbatim>\<open>visited.add(start)\<close>, \<^verbatim>\<open>yield start\<close> and the loop.
  \<open>dfs_loop\<close> is that loop over the neighbours, with \<^verbatim>\<open>yield from\<close> the recursive
  call, which gets the neighbour as it is, \<^verbatim>\<open>None\<close> included.
\<close>

function dfs_from ::
    "'a option graph \<Rightarrow> 'a option \<Rightarrow> 'a option set \<Rightarrow> 'a option set \<times> 'a option list"
  and dfs_loop ::
    "'a option graph \<Rightarrow> 'a option list \<Rightarrow> 'a option set \<Rightarrow> 'a option set \<times> 'a option list"
  where
  "dfs_from g start visited =
     (case default_start g start of
        None \<Rightarrow> (visited, [])
      | Some s \<Rightarrow>
          if Some s \<in> visited then (visited, [])
          else (case dfs_loop g (adj_get g (Some s)) (insert (Some s) visited) of
                  (visited', ys) \<Rightarrow> (visited', Some s # ys)))"
| "dfs_loop g [] visited = (visited, [])"
| "dfs_loop g (neighbor # rest) visited =
     (if neighbor \<notin> visited then
        (case dfs_from g neighbor visited of
           (visited1, ys) \<Rightarrow>
             (case dfs_loop g rest visited1 of
                (visited2, zs) \<Rightarrow> (visited2, ys @ zs)))
      else dfs_loop g rest visited)"
  by pat_completeness auto

lemma dfs_mono_dom:
  "dfs_from_dfs_loop_dom (Inl (g, start, vis)) \<Longrightarrow> vis \<subseteq> fst (dfs_from g start vis)"
  "dfs_from_dfs_loop_dom (Inr (g, ns, vis)) \<Longrightarrow> vis \<subseteq> fst (dfs_loop g ns vis)"
proof (induction g start vis and g ns vis rule: dfs_from_dfs_loop.pinduct)
  case (1 g start visited)
  then show ?case
    by (auto simp: dfs_from.psimps split: prod.splits option.splits)
next
  case (2 g visited)
  then show ?case by (simp add: dfs_loop.psimps)
next
  case (3 g neighbor rest visited)
  show ?case
  proof (cases "neighbor \<in> visited")
    case True
    with 3 show ?thesis by (simp add: dfs_loop.psimps)
  next
    case False
    obtain v1 ys where r: "dfs_from g neighbor visited = (v1, ys)"
      by (cases "dfs_from g neighbor visited")
    from 3(2)[OF False] r have m1: "visited \<subseteq> v1" by simp
    from 3(3)[OF False r[symmetric]] have "v1 \<subseteq> fst (dfs_loop g rest v1)" .
    with 3(1) False r m1 show ?thesis
      by (auto simp: dfs_loop.psimps split: prod.splits)
  qed
qed

termination dfs_from
proof (relation "measures
    [\<lambda>x. case x of
       Inl (g, start, vis) \<Rightarrow> card (set (keys g) - vis)
     | Inr (g, ns, vis) \<Rightarrow> card (set (keys g) - vis),
     \<lambda>x. case x of
       Inl (g, start, vis) \<Rightarrow> 1
     | Inr (g, ns, vis) \<Rightarrow> 2 * length ns]", goal_cases)
  case 1
  then show ?case by simp
next
  case (2 g start visited s)
  show ?case
  proof (cases "Some s \<in> set (keys g)")
    case True
    from card_keys_insert_less[OF True 2(2)] show ?thesis by simp
  next
    case False
    then have "set (keys g) - insert (Some s) visited = set (keys g) - visited" by auto
    with False show ?thesis by (simp add: adj_get_not_key)
  qed
next
  case (3 g neighbor rest visited)
  then show ?case by simp
next
  case (4 g neighbor rest visited x y)
  then have "fst (dfs_from g neighbor visited) = x"
    and "dfs_from_dfs_loop_dom (Inl (g, neighbor, visited))"
    by (auto dest: sym)
  with dfs_mono_dom(1)[of g neighbor visited] have "visited \<subseteq> x" by simp
  from card_keys_mono[OF this, of g] show ?case by auto
next
  case (5 g neighbor rest visited)
  then show ?case by simp
qed

declare dfs_from.simps [simp del]

text \<open>
  The method as a caller starts it, with \<^verbatim>\<open>visited=None\<close>, which becomes a fresh empty
  set. A caller that leaves \<^verbatim>\<open>start\<close> out passes \<^verbatim>\<open>None\<close>.
\<close>

definition dfs :: "'a option graph \<Rightarrow> 'a option \<Rightarrow> 'a option list" where
  "dfs g start = snd (dfs_from g start {})"

text \<open>
  \<^verbatim>\<open>bfs\<close>: \<open>bfs_scan\<close> is the inner \<^verbatim>\<open>for\<close> loop, which marks and enqueues each
  unvisited neighbour; \<open>bfs_loop\<close> is the \<^verbatim>\<open>while queue\<close> loop, which returns the
  values yielded from there on. Each round takes one node from the queue, and every
  node added to it leaves one fewer unvisited edge target: that sum is the measure.
\<close>

fun bfs_scan :: "'a list \<Rightarrow> 'a set \<times> 'a list \<Rightarrow> 'a set \<times> 'a list" where
  "bfs_scan [] s = s"
| "bfs_scan (neighbor # rest) (visited, queue) =
     bfs_scan rest
       (if neighbor \<notin> visited then (insert neighbor visited, queue @ [neighbor])
        else (visited, queue))"

text \<open>
  Every node that stands in some neighbour list: the nodes the queue can ever
  receive besides the start.
\<close>

definition targets :: "'a graph \<Rightarrow> 'a set" where
  "targets g = (\<Union>ns \<in> set (map snd g). set ns)"

lemma adj_get_targets: "set (adj_get g n) \<subseteq> targets g"
proof
  fix x assume x: "x \<in> set (adj_get g n)"
  then obtain ns where ns: "map_of g n = Some ns" "x \<in> set ns"
    by (cases "map_of g n") (auto simp: adj_get_def)
  from map_of_SomeD[OF ns(1)] ns(2) show "x \<in> targets g"
    by (force simp: targets_def)
qed

lemma finite_targets: "finite (targets g)"
  by (simp add: targets_def)

lemma bfs_scan_measure:
  "finite N \<Longrightarrow> set ns \<subseteq> N \<Longrightarrow> bfs_scan ns (vis, q) = (vis', q') \<Longrightarrow>
     card (N - vis') + length q' = card (N - vis) + length q"
proof (induction ns arbitrary: vis q)
  case Nil
  then show ?case by simp
next
  case (Cons n ns)
  show ?case
  proof (cases "n \<in> vis")
    case True
    with Cons show ?thesis by simp
  next
    case False
    with Cons.prems have step: "bfs_scan ns (insert n vis, q @ [n]) = (vis', q')" by simp
    from Cons.prems have "n \<in> N" by simp
    with False Cons.prems(1) have "card (N - vis) = Suc (card (N - insert n vis))"
      by (metis Diff_iff Diff_insert card_Suc_Diff1 finite_Diff)
    with Cons.IH[OF Cons.prems(1) _ step] Cons.prems(2) show ?thesis by simp
  qed
qed

function bfs_loop :: "'a graph \<Rightarrow> 'a set \<Rightarrow> 'a list \<Rightarrow> 'a list" where
  "bfs_loop g visited [] = []"
| "bfs_loop g visited (node # queue) =
     node # (case bfs_scan (adj_get g node) (visited, queue) of
               (visited', queue') \<Rightarrow> bfs_loop g visited' queue')"
  by pat_completeness auto
termination bfs_loop
proof (relation "measure (\<lambda>(g, vis, q). card (targets g - vis) + length q)", goal_cases)
  case 1
  then show ?case by simp
next
  case (2 g visited node queue x y)
  from bfs_scan_measure[OF finite_targets adj_get_targets 2[symmetric]]
  show ?case by simp
qed

definition bfs :: "'a graph \<Rightarrow> 'a option \<Rightarrow> 'a list" where
  "bfs g start =
     (if g = [] then []
      else (let s = (case start of None \<Rightarrow> hd (keys g) | Some s \<Rightarrow> s)
            in bfs_loop g {s} [s]))"

section \<open>DAG: reachability and guarded insertion\<close>

text \<open>
  \<^verbatim>\<open>DAG._has_path(start, end, visited)\<close>. The set \<^verbatim>\<open>visited\<close> is one mutable object
  shared by all recursive calls, so each call returns it next to its boolean.
  \<open>has_path_from\<close> is the body of the method once \<^verbatim>\<open>visited\<close> is a set;
  \<open>has_path_loop\<close> is its \<^verbatim>\<open>for neighbor in self.adj.get(start, [])\<close> loop, which
  leaves on the first recursive call that returns true.
\<close>

function has_path_from :: "'a graph \<Rightarrow> 'a \<Rightarrow> 'a \<Rightarrow> 'a set \<Rightarrow> bool \<times> 'a set"
  and has_path_loop :: "'a graph \<Rightarrow> 'a list \<Rightarrow> 'a \<Rightarrow> 'a set \<Rightarrow> bool \<times> 'a set" where
  "has_path_from g start end visited =
     (if start = end then (True, visited)
      else has_path_loop g (adj_get g start) end (insert start visited))"
| "has_path_loop g [] end visited = (False, visited)"
| "has_path_loop g (neighbor # rest) end visited =
     (if neighbor \<notin> visited then
        (case has_path_from g neighbor end visited of
           (True, visited') \<Rightarrow> (True, visited')
         | (False, visited') \<Rightarrow> has_path_loop g rest end visited')
      else has_path_loop g rest end visited)"
  by pat_completeness auto

text \<open>
  Termination, as for \<open>visit\<close>: on its domain, a call only adds to \<^verbatim>\<open>visited\<close>.
\<close>

lemma has_path_mono_dom:
  "has_path_from_has_path_loop_dom (Inl (g, start, e, vis)) \<Longrightarrow>
     vis \<subseteq> snd (has_path_from g start e vis)"
  "has_path_from_has_path_loop_dom (Inr (g, ns, e, vis)) \<Longrightarrow>
     vis \<subseteq> snd (has_path_loop g ns e vis)"
proof (induction g start e vis and g ns e vis rule: has_path_from_has_path_loop.pinduct)
  case (1 g start e visited)
  then show ?case by (auto simp: has_path_from.psimps)
next
  case (2 g e visited)
  then show ?case by (simp add: has_path_loop.psimps)
next
  case (3 g neighbor rest e visited)
  show ?case
  proof (cases "neighbor \<in> visited")
    case True
    with 3 show ?thesis by (simp add: has_path_loop.psimps)
  next
    case False
    obtain b v1 where r: "has_path_from g neighbor e visited = (b, v1)"
      by (cases "has_path_from g neighbor e visited")
    from 3(2)[OF False] r have m1: "visited \<subseteq> v1" by simp
    show ?thesis
    proof (cases b)
      case True
      with 3(1) False r m1 show ?thesis by (simp add: has_path_loop.psimps)
    next
      case b: False
      from 3(3)[OF False r[symmetric]] b have "v1 \<subseteq> snd (has_path_loop g rest e v1)"
        by simp
      with 3(1) False r m1 b show ?thesis by (auto simp add: has_path_loop.psimps)
    qed
  qed
qed

text \<open>
  The measure: the number of keys not yet visited (counting the start of a call as
  visited), then the length of what is left of the neighbour list.
\<close>

termination has_path_from
proof (relation "measures
    [\<lambda>x. case x of
       Inl (g, start, e, vis) \<Rightarrow> card (set (keys g) - insert start vis)
     | Inr (g, ns, e, vis) \<Rightarrow> card (set (keys g) - vis),
     \<lambda>x. case x of
       Inl (g, start, e, vis) \<Rightarrow> 1 + 2 * length (adj_get g start)
     | Inr (g, ns, e, vis) \<Rightarrow> 2 * length ns]", goal_cases)
  case 1
  then show ?case by simp
next
  case (2 g start e visited)
  then show ?case by simp
next
  case (3 g neighbor rest e visited)
  show ?case
  proof (cases "neighbor \<in> set (keys g)")
    case True
    from card_keys_insert_less[OF True 3] show ?thesis by simp
  next
    case False
    then have "set (keys g) - insert neighbor visited = set (keys g) - visited" by auto
    with False show ?thesis by (simp add: adj_get_not_key)
  qed
next
  case (4 g neighbor rest e visited x y)
  then have "snd (has_path_from g neighbor e visited) = y"
    and "has_path_from_has_path_loop_dom (Inl (g, neighbor, e, visited))"
    by (auto dest: sym)
  with has_path_mono_dom(1)[of g neighbor e visited] have "visited \<subseteq> y" by simp
  from card_keys_mono[OF this, of g] show ?case by auto
next
  case (5 g neighbor rest e visited)
  then show ?case by simp
qed

declare has_path_from.simps [simp del]

text \<open>The method as its callers use it: \<^verbatim>\<open>visited=None\<close> becomes a fresh empty set.\<close>

definition has_path :: "'a graph \<Rightarrow> 'a \<Rightarrow> 'a \<Rightarrow> bool" where
  "has_path g start end = fst (has_path_from g start end {})"

text \<open>
  \<^verbatim>\<open>DAG.add_edge\<close>: the reachability test from \<^verbatim>\<open>v\<close> to \<^verbatim>\<open>u\<close>, the \<^verbatim>\<open>raise\<close>, and
  otherwise the base class's \<^verbatim>\<open>add_edge\<close>.
\<close>

definition dag_add_edge :: "'a graph \<Rightarrow> 'a \<Rightarrow> 'a \<Rightarrow> 'a error option \<times> 'a graph" where
  "dag_add_edge g u v =
     (if has_path g v u then (Some (ValueError u v), g) else add_edge g u v)"

text \<open>
  A client of a \<^verbatim>\<open>DAG\<close>: calls of \<^verbatim>\<open>add_node\<close> and \<^verbatim>\<open>add_edge\<close>, the latter
  caught when it raises (as the script at the end of the file does). \<open>dag_call\<close>
  is the graph after one call.
\<close>

datatype 'a call = AddNode 'a | AddEdge 'a 'a

fun dag_call :: "'a graph \<Rightarrow> 'a call \<Rightarrow> 'a graph" where
  "dag_call g (AddNode node) = add_node g node"
| "dag_call g (AddEdge u v) = snd (dag_add_edge g u v)"

section \<open>Specification vocabulary\<close>

text \<open>The adjacency relation as a set of directed edges.\<close>

definition edges :: "'a graph \<Rightarrow> ('a \<times> 'a) set" where
  "edges g = {(u, v). v \<in> set (adj_get g u)}"

text \<open>
  What a call of \<^verbatim>\<open>_has_path\<close> that answers false has done to \<^verbatim>\<open>visited\<close>: it
  only added nodes, none of them \<open>e\<close>, and every neighbour of an added node is in
  the set.
\<close>

definition hp_post :: "'a graph \<Rightarrow> 'a \<Rightarrow> 'a set \<Rightarrow> 'a set \<Rightarrow> bool" where
  "hp_post g e vis vis' \<longleftrightarrow>
     vis \<subseteq> vis' \<and> e \<notin> vis' - vis \<and>
     (\<forall>x \<in> vis' - vis. set (adj_get g x) \<subseteq> vis')"

text \<open>
  Every identifier the graph mentions: its keys and the targets of its edges. The
  insertion methods make every target a key, and then these are the keys alone.
\<close>

definition nodes :: "'a graph \<Rightarrow> 'a set" where
  "nodes g = set (keys g) \<union> Range (edges g)"

text \<open>
  How a call of \<open>visit\<close> changes the state, on any graph: it appends distinct,
  previously unvisited nodes to \<^verbatim>\<open>result\<close> and adds the same nodes to \<^verbatim>\<open>visited\<close>.
\<close>

definition extends :: "'a set \<times> 'a list \<Rightarrow> 'a set \<times> 'a list \<Rightarrow> bool" where
  "extends s s' \<longleftrightarrow>
     (\<exists>new. snd s' = snd s @ new \<and> distinct new \<and> set new \<inter> fst s = {} \<and>
            fst s' = fst s \<union> set new)"

text \<open>A list in which every successor of an element stands further right.\<close>

fun topo_sorted :: "('a \<times> 'a) set \<Rightarrow> 'a list \<Rightarrow> bool" where
  "topo_sorted r [] = True"
| "topo_sorted r (x # xs) = (r `` {x} \<subseteq> set xs \<and> topo_sorted r xs)"

text \<open>
  The invariant of \<open>visit\<close> on an acyclic graph. The nodes on the recursion stack
  are those visited but not yet in \<^verbatim>\<open>result\<close>; each of them reaches the nodes
  \<open>tgt\<close> about to be visited, and the reversed result is \<open>topo_sorted\<close>.
\<close>

definition topo_pre :: "'a graph \<Rightarrow> 'a set \<Rightarrow> 'a set \<times> 'a list \<Rightarrow> bool" where
  "topo_pre g tgt s \<longleftrightarrow>
     topo_sorted (edges g) (rev (snd s)) \<and> set (snd s) \<subseteq> fst s \<and>
     (\<forall>x \<in> fst s - set (snd s). \<forall>n \<in> tgt. (x, n) \<in> (edges g)\<^sup>*)"

text \<open>The nodes that \<open>s\<close> reaches by directed paths, \<open>s\<close> itself included.\<close>

definition reach :: "'a graph \<Rightarrow> 'a \<Rightarrow> 'a set" where
  "reach g s = (edges g)\<^sup>* `` {s}"

text \<open>
  The connected component of \<open>s\<close>: what \<open>s\<close> reaches when the direction of the
  edges is ignored. The strongly connected component: the nodes that \<open>s\<close> reaches
  and that reach \<open>s\<close>.
\<close>

definition component :: "'a graph \<Rightarrow> 'a \<Rightarrow> 'a set" where
  "component g s = (edges g \<union> (edges g)\<inverse>)\<^sup>* `` {s}"

definition strong_component :: "'a graph \<Rightarrow> 'a \<Rightarrow> 'a set" where
  "strong_component g s = {x. (s, x) \<in> (edges g)\<^sup>* \<and> (x, s) \<in> (edges g)\<^sup>*}"

text \<open>
  What a call of \<open>dfs_from\<close> does: it yields distinct, previously unvisited nodes,
  adds exactly these to \<^verbatim>\<open>visited\<close>, and every neighbour of a yielded node is in
  \<^verbatim>\<open>visited\<close> afterwards.
\<close>

definition dfs_post :: "'a graph \<Rightarrow> 'a set \<Rightarrow> 'a set \<times> 'a list \<Rightarrow> bool" where
  "dfs_post g vis r \<longleftrightarrow>
     distinct (snd r) \<and> set (snd r) \<inter> vis = {} \<and> fst r = vis \<union> set (snd r) \<and>
     (\<forall>x \<in> set (snd r). set (adj_get g x) \<subseteq> fst r)"

text \<open>The edge-distance from \<open>s\<close>: the length of a shortest directed path.\<close>

definition dist :: "'a graph \<Rightarrow> 'a \<Rightarrow> 'a \<Rightarrow> nat" where
  "dist g s x = (LEAST n. (s, x) \<in> edges g ^^ n)"

text \<open>
  The invariant of the \<^verbatim>\<open>while\<close> loop of \<^verbatim>\<open>bfs\<close>: the queue holds visited nodes,
  visited nodes are reachable, a visited node that has left the queue has all its
  neighbours visited, the queue is ordered by distance and spans at most two
  consecutive distances, and every node no farther than the head of the queue is
  visited.
\<close>

definition bfs_inv :: "'a graph \<Rightarrow> 'a \<Rightarrow> 'a set \<Rightarrow> 'a list \<Rightarrow> bool" where
  "bfs_inv g s vis queue \<longleftrightarrow>
     set queue \<subseteq> vis \<and> vis \<subseteq> reach g s \<and>
     (\<forall>x \<in> vis - set queue. set (adj_get g x) \<subseteq> vis) \<and>
     sorted_wrt (\<lambda>x y. dist g s x \<le> dist g s y) queue \<and>
     (\<forall>h \<in> set queue. \<forall>x \<in> set queue. dist g s x \<le> dist g s h + 1) \<and>
     (\<forall>x \<in> reach g s. queue \<noteq> [] \<and> dist g s x \<le> dist g s (hd queue) \<longrightarrow> x \<in> vis)"

text \<open>
  Example graphs: one with a cycle, the one the script builds (with the calls that
  build it), a chain, and a diamond closed into a cycle.
\<close>

definition g_cyc :: "nat graph" where
  "g_cyc = [(1, [2]), (2, [1, 3]), (3, [])]"

definition clothes_calls :: "string call list" where
  "clothes_calls =
     [AddEdge ''shirt'' ''tie'', AddEdge ''shirt'' ''belt'', AddEdge ''tie'' ''jacket'',
      AddEdge ''belt'' ''jacket'', AddEdge ''pants'' ''shoes'', AddEdge ''pants'' ''belt'',
      AddEdge ''socks'' ''shoes'']"

definition clothes :: "string graph" where
  "clothes =
     [(''shirt'', [''tie'', ''belt'']), (''tie'', [''jacket'']), (''belt'', [''jacket'']),
      (''jacket'', []), (''pants'', [''shoes'', ''belt'']), (''shoes'', []),
      (''socks'', [''shoes''])]"

definition g_chain :: "nat graph" where
  "g_chain = [(1, [2]), (2, [3]), (3, [])]"

definition g_diamond :: "nat graph" where
  "g_diamond = [(2, [3, 4]), (3, [5]), (4, [5]), (5, [2])]"

text \<open>
  Graphs for \<^verbatim>\<open>dfs\<close>, whose nodes are Python values: the chain and the cyclic graph
  again, and the graph that \<^verbatim>\<open>add_node(0)\<close> and \<^verbatim>\<open>add_edge(1, None)\<close> build, in
  which \<^verbatim>\<open>None\<close> is a node.
\<close>

definition g_chain_py :: "nat option graph" where
  "g_chain_py = [(Some 1, [Some 2]), (Some 2, [Some 3]), (Some 3, [])]"

definition g_cyc_py :: "nat option graph" where
  "g_cyc_py = [(Some 1, [Some 2]), (Some 2, [Some 1, Some 3]), (Some 3, [])]"

definition g_none :: "nat option graph" where
  "g_none = [(Some 0, []), (Some 1, [None]), (None, [])]"

section \<open>Lemmas on the adjacency relation\<close>

lemma edges_iff: "(u, v) \<in> edges g \<longleftrightarrow> v \<in> set (adj_get g u)"
  by (simp add: edges_def)

text \<open>A set that contains \<open>s\<close> and is closed under the edges contains all \<open>s\<close> reaches.\<close>

lemma closed_reach:
  assumes "(s, x) \<in> r\<^sup>*" and "s \<in> S" and "\<And>a b. a \<in> S \<Longrightarrow> (a, b) \<in> r \<Longrightarrow> b \<in> S"
  shows "x \<in> S"
  using assms by (induction rule: rtrancl_induct) auto

lemma has_path_sound:
  "fst (has_path_from g start e vis) \<Longrightarrow> (start, e) \<in> (edges g)\<^sup>*"
  "fst (has_path_loop g ns e vis) \<Longrightarrow> \<exists>n \<in> set ns. (n, e) \<in> (edges g)\<^sup>*"
proof (induction g start e vis and g ns e vis rule: has_path_from_has_path_loop.induct)
  case (1 g start e visited)
  show ?case
  proof (cases "start = e")
    case True
    then show ?thesis by simp
  next
    case False
    with 1 obtain n where "n \<in> set (adj_get g start)" "(n, e) \<in> (edges g)\<^sup>*"
      by (auto simp: has_path_from.simps)
    then show ?thesis by (auto simp: edges_iff intro: converse_rtrancl_into_rtrancl)
  qed
next
  case (2 g e visited)
  then show ?case by simp
next
  case (3 g neighbor rest e visited)
  then show ?case
    by (auto split: if_splits prod.splits bool.splits)
qed

lemma hp_post_refl: "hp_post g e vis vis"
  by (simp add: hp_post_def)

lemma hp_post_trans: "hp_post g e v1 v2 \<Longrightarrow> hp_post g e v2 v3 \<Longrightarrow> hp_post g e v1 v3"
  unfolding hp_post_def by blast

lemma has_path_complete:
  "\<not> fst (has_path_from g start e vis) \<Longrightarrow>
     hp_post g e vis (snd (has_path_from g start e vis)) \<and>
     start \<in> snd (has_path_from g start e vis)"
  "\<not> fst (has_path_loop g ns e vis) \<Longrightarrow>
     hp_post g e vis (snd (has_path_loop g ns e vis)) \<and>
     set ns \<subseteq> snd (has_path_loop g ns e vis)"
proof (induction g start e vis and g ns e vis rule: has_path_from_has_path_loop.induct)
  case (1 g start e visited)
  then have ne: "start \<noteq> e" by (auto simp: has_path_from.simps)
  let ?r = "has_path_loop g (adj_get g start) e (insert start visited)"
  have eq: "has_path_from g start e visited = ?r"
    using ne by (simp add: has_path_from.simps)
  from 1 ne eq have "hp_post g e (insert start visited) (snd ?r)"
    and "set (adj_get g start) \<subseteq> snd ?r" by auto
  then show ?case unfolding eq hp_post_def using ne by blast
next
  case (2 g e visited)
  then show ?case by (simp add: hp_post_refl)
next
  case (3 g neighbor rest e visited)
  show ?case
  proof (cases "neighbor \<in> visited")
    case True
    with 3 show ?thesis by (auto simp: hp_post_def)
  next
    case False
    obtain b v1 where r: "has_path_from g neighbor e visited = (b, v1)"
      by (cases "has_path_from g neighbor e visited")
    with 3(4) False have b: "\<not> b" by (auto split: bool.splits)
    from 3(1)[OF False] r b have p1: "hp_post g e visited v1" "neighbor \<in> v1" by auto
    have eq: "has_path_loop g (neighbor # rest) e visited = has_path_loop g rest e v1"
      using False r b by simp
    from 3(2)[OF False r[symmetric]] b 3(4) eq
    have p2: "hp_post g e v1 (snd (has_path_loop g rest e v1))"
      "set rest \<subseteq> snd (has_path_loop g rest e v1)" by auto
    from p2(1) p1(2) have "neighbor \<in> snd (has_path_loop g rest e v1)"
      by (auto simp: hp_post_def)
    with hp_post_trans[OF p1(1) p2(1)] p2(2) show ?thesis unfolding eq by simp
  qed
qed

lemma has_path_iff: "has_path g start e \<longleftrightarrow> (start, e) \<in> (edges g)\<^sup>*"
proof
  assume "has_path g start e"
  then show "(start, e) \<in> (edges g)\<^sup>*"
    by (simp add: has_path_def has_path_sound(1))
next
  assume reach: "(start, e) \<in> (edges g)\<^sup>*"
  show "has_path g start e"
  proof (rule ccontr)
    assume "\<not> has_path g start e"
    then have nf: "\<not> fst (has_path_from g start e {})" by (simp add: has_path_def)
    let ?S = "snd (has_path_from g start e {})"
    from has_path_complete(1)[OF nf]
    have "start \<in> ?S" "e \<notin> ?S" "\<And>a b. a \<in> ?S \<Longrightarrow> (a, b) \<in> edges g \<Longrightarrow> b \<in> ?S"
      by (auto simp: hp_post_def edges_iff)
    with closed_reach[OF reach, of ?S] show False by blast
  qed
qed

section \<open>Insertion\<close>

lemma map_of_add_node:
  "map_of (add_node g n) = (if n \<in> set (keys g) then map_of g else (map_of g)(n \<mapsto> []))"
  by (simp add: add_node_def update_conv')

lemma keys_add_node:
  "keys (add_node g n) = (if n \<in> set (keys g) then keys g else keys g @ [n])"
  by (simp add: add_node_def keys_def update_keys)

lemma in_keys_iff: "n \<in> set (keys g) \<longleftrightarrow> map_of g n \<noteq> None"
  by (simp add: keys_def map_of_eq_None_iff)

lemma adj_get_add_node: "adj_get (add_node g n) w = adj_get g w"
  by (auto simp: adj_get_def map_of_add_node in_keys_iff)

lemma edges_add_node: "edges (add_node g n) = edges g"
  by (simp add: edges_def adj_get_add_node)

lemma add_edge_ok: "fst (add_edge g u v) = None"
proof -
  have "u \<in> set (keys (add_node (add_node g u) v))"
    by (simp add: keys_add_node)
  then show ?thesis
    by (auto simp: add_edge_def Let_def in_keys_iff split: option.splits)
qed

lemma map_of_add_edge:
  "map_of (snd (add_edge g u v)) =
     (map_of (add_node (add_node g u) v))(u \<mapsto> adj_get g u @ [v])"
proof -
  let ?g2 = "add_node (add_node g u) v"
  have "u \<in> set (keys ?g2)" by (simp add: keys_add_node)
  then obtain ns where ns: "map_of ?g2 u = Some ns" by (auto simp: in_keys_iff)
  then have "ns = adj_get ?g2 u" by (simp add: adj_get_def)
  then have "ns = adj_get g u" by (simp add: adj_get_add_node)
  with ns show ?thesis by (simp add: add_edge_def Let_def update_conv')
qed

lemma adj_get_add_edge:
  "adj_get (snd (add_edge g u v)) w = (if w = u then adj_get g u @ [v] else adj_get g w)"
  using adj_get_add_node[of "add_node g u" v w] adj_get_add_node[of g u w]
  by (simp add: map_of_add_edge adj_get_def)

lemma keys_add_edge:
  "keys (snd (add_edge g u v)) = keys (add_node (add_node g u) v)"
proof -
  have "u \<in> set (keys (add_node (add_node g u) v))" by (simp add: keys_add_node)
  then show ?thesis
    by (auto simp: add_edge_def Let_def keys_def update_keys split: option.splits)
qed

lemma edges_add_edge: "edges (snd (add_edge g u v)) = insert (u, v) (edges g)"
  by (auto simp: edges_def adj_get_add_edge split: if_splits)

section \<open>Reachability check\<close>

text \<open>
  Claim C4. \<^verbatim>\<open>_has_path(start, end)\<close> answers true when \<open>start = end\<close>, and
  otherwise answers true exactly when a directed path leads from \<open>start\<close> to
  \<open>end\<close>. The graph \<open>g\<close> is arbitrary, cycles included: \<open>has_path\<close> is a total
  function (its termination is proved at its definition), so the call returns on every
  graph.
\<close>

theorem has_path_correct:
  "(start = e \<longrightarrow> has_path g start e) \<and>
   (start \<noteq> e \<longrightarrow> (has_path g start e \<longleftrightarrow> (start, e) \<in> (edges g)\<^sup>+))"
  by (auto simp: has_path_iff rtrancl_eq_or_trancl)

lemma has_path_g_cyc: "has_path g_cyc 1 3" "\<not> has_path g_cyc 3 1" "has_path g_cyc 2 2"
  by (simp_all add: g_cyc_def has_path_def has_path_from.simps adj_get_def)

theorem has_path_correct_witness:
  "has_path g_cyc 2 2 \<and> (1::nat) \<noteq> 3 \<and> has_path g_cyc 1 3 \<and> (1, 3) \<in> (edges g_cyc)\<^sup>+ \<and>
   \<not> has_path g_cyc 3 1 \<and> (3, 1) \<notin> (edges g_cyc)\<^sup>+"
  using has_path_correct[of 1 3 g_cyc] has_path_correct[of 3 1 g_cyc]
    has_path_correct[of 2 2 g_cyc] has_path_g_cyc
  by simp

text \<open>
  Claim C5. On every DAG state \<open>g\<close> and for every node \<open>x\<close>, whether or not \<open>x\<close> is
  in the graph, \<^verbatim>\<open>add_edge(x, x)\<close> raises the cycle error and leaves the graph as it
  was.
\<close>

theorem dag_self_loop: "dag_add_edge g x x = (Some (ValueError x x), g)"
  by (simp add: dag_add_edge_def has_path_def has_path_from.simps)

theorem dag_self_loop_witness:
  "dag_add_edge init (0::nat) 0 = (Some (ValueError 0 0), init)"
  using dag_self_loop[of init "0::nat"] by simp

text \<open>
  Claim C2. \<^verbatim>\<open>DAG.add_edge(u, v)\<close> raises exactly when \<open>v\<close> reaches \<open>u\<close> (by a path
  of zero or more edges) in the current graph; the error raised then carries \<open>u\<close> and
  \<open>v\<close> and the graph after the call is the graph before it; when \<open>v\<close> does not reach
  \<open>u\<close>, the call is the base class's \<^verbatim>\<open>add_edge(u, v)\<close>.
\<close>

theorem dag_add_edge_spec:
  "(fst (dag_add_edge g u v) \<noteq> None \<longleftrightarrow> (v, u) \<in> (edges g)\<^sup>*) \<and>
   ((v, u) \<in> (edges g)\<^sup>* \<longrightarrow> dag_add_edge g u v = (Some (ValueError u v), g)) \<and>
   ((v, u) \<notin> (edges g)\<^sup>* \<longrightarrow> dag_add_edge g u v = add_edge g u v)"
  by (simp add: dag_add_edge_def has_path_iff add_edge_ok)

lemma clothes_built: "foldl dag_call init clothes_calls = clothes"
  by (simp add: clothes_calls_def clothes_def init_def dag_add_edge_def has_path_def
      has_path_from.simps adj_get_def add_edge_def add_node_def keys_def)

lemma clothes_reject:
  "dag_add_edge clothes ''jacket'' ''shirt'' = (Some (ValueError ''jacket'' ''shirt''), clothes)"
  by (simp add: clothes_def dag_add_edge_def has_path_def has_path_from.simps adj_get_def)

lemma clothes_accept:
  "fst (dag_add_edge clothes ''shirt'' ''jacket'') = None"
  by (simp add: clothes_def dag_add_edge_def has_path_def has_path_from.simps adj_get_def
      add_edge_def add_node_def keys_def)

theorem dag_add_edge_spec_witness:
  "(''shirt'', ''jacket'') \<in> (edges clothes)\<^sup>* \<and>
   dag_add_edge clothes ''jacket'' ''shirt'' = (Some (ValueError ''jacket'' ''shirt''), clothes) \<and>
   (''jacket'', ''shirt'') \<notin> (edges clothes)\<^sup>* \<and>
   dag_add_edge clothes ''shirt'' ''jacket'' = add_edge clothes ''shirt'' ''jacket''"
  using dag_add_edge_spec[of clothes "''jacket''" "''shirt''"]
    dag_add_edge_spec[of clothes "''shirt''" "''jacket''"] clothes_reject clothes_accept
  by auto

text \<open>
  Claim C6. The base \<^verbatim>\<open>add_edge(u, v)\<close> never raises; afterwards the keys are the old
  keys followed by \<open>u\<close> and \<open>v\<close> where they were missing, \<open>u\<close>'s neighbour list is
  its old list (empty if \<open>u\<close> was missing) with \<open>v\<close> appended at the end, a missing
  \<open>v\<close> has the empty list, and every other entry is unchanged.
\<close>

theorem add_edge_post:
  "fst (add_edge g u v) = None \<and>
   set (keys (snd (add_edge g u v))) = set (keys g) \<union> {u, v} \<and>
   keys (snd (add_edge g u v)) =
     keys g @ (if u \<in> set (keys g) then [] else [u])
            @ (if v \<in> set (keys g) \<or> v = u then [] else [v]) \<and>
   map_of (snd (add_edge g u v)) u = Some (adj_get g u @ [v]) \<and>
   (\<forall>w. w \<noteq> u \<longrightarrow> map_of (snd (add_edge g u v)) w =
      (if w = v \<and> v \<notin> set (keys g) then Some [] else map_of g w))"
  by (auto simp: add_edge_ok keys_add_edge keys_add_node map_of_add_edge map_of_add_node)

theorem add_edge_post_witness:
  "fst (add_edge g_cyc 3 4) = None \<and>
   keys (snd (add_edge g_cyc 3 4)) = [1, 2, 3, 4] \<and>
   map_of (snd (add_edge g_cyc 3 4)) 3 = Some [4] \<and>
   map_of (snd (add_edge g_cyc 3 4)) 4 = Some [] \<and>
   (1::nat) \<noteq> 3 \<and> map_of (snd (add_edge g_cyc 3 4)) 1 = Some [2]"
proof -
  have k: "keys g_cyc = [1, 2, 3]" and a: "adj_get g_cyc 3 = []"
    and m: "map_of g_cyc 1 = Some [2]"
    by (simp_all add: g_cyc_def keys_def adj_get_def)
  from add_edge_post[of g_cyc 3 4] k a m show ?thesis
    by simp
qed

lemma edges_init: "edges init = {}"
  by (simp add: edges_def init_def adj_get_def)

lemma dag_call_acyclic: "acyclic (edges g) \<Longrightarrow> acyclic (edges (dag_call g c))"
proof (cases c)
  case (AddNode n)
  assume "acyclic (edges g)"
  with AddNode show ?thesis by (simp add: edges_add_node)
next
  case (AddEdge u v)
  assume "acyclic (edges g)"
  with AddEdge show ?thesis
    by (simp add: dag_add_edge_def has_path_iff edges_add_edge acyclic_insert)
qed

lemma foldl_dag_call_acyclic:
  "acyclic (edges g) \<Longrightarrow> acyclic (edges (foldl dag_call g cs))"
  by (induction cs arbitrary: g) (simp_all add: dag_call_acyclic)

text \<open>
  Claim C1. Start from a fresh DAG and make any sequence of \<^verbatim>\<open>add_node\<close> and
  \<^verbatim>\<open>add_edge\<close> calls, each \<^verbatim>\<open>add_edge\<close> succeeding or raising: after every call
  (after the first \<open>n\<close> calls, for every \<open>n\<close>) the adjacency relation has no directed
  cycle.
\<close>

theorem dag_acyclic: "acyclic (edges (foldl dag_call init (take n calls)))"
  by (rule foldl_dag_call_acyclic) (simp add: edges_init acyclic_def)

theorem dag_acyclic_witness:
  "acyclic (edges (foldl dag_call init (take 7 clothes_calls))) \<and>
   acyclic (edges (foldl dag_call init (take 8 (clothes_calls @ [AddEdge ''jacket'' ''shirt'']))))"
  using dag_acyclic[of 7 clothes_calls]
    dag_acyclic[of 8 "clothes_calls @ [AddEdge ''jacket'' ''shirt'']"]
  by simp

section \<open>Topological sort\<close>

lemma extends_refl: "extends s s"
  by (simp add: extends_def)

lemma extends_trans:
  assumes "extends s1 s2" and "extends s2 s3"
  shows "extends s1 s3"
proof -
  from assms(1) obtain n1 where 1: "snd s2 = snd s1 @ n1" "distinct n1"
    "set n1 \<inter> fst s1 = {}" "fst s2 = fst s1 \<union> set n1"
    unfolding extends_def by blast
  from assms(2) obtain n2 where 2: "snd s3 = snd s2 @ n2" "distinct n2"
    "set n2 \<inter> fst s2 = {}" "fst s3 = fst s2 \<union> set n2"
    unfolding extends_def by blast
  have "snd s3 = snd s1 @ (n1 @ n2)" using 1 2 by simp
  moreover have "distinct (n1 @ n2)" using 1 2 by auto
  moreover have "set (n1 @ n2) \<inter> fst s1 = {}" using 1 2 by auto
  moreover have "fst s3 = fst s1 \<union> set (n1 @ n2)" using 1 2 by auto
  ultimately show ?thesis unfolding extends_def by blast
qed

lemma extends_snoc:
  assumes "extends (insert node vis, res) (vis', res')" and "node \<notin> vis"
  shows "extends (vis, res) (vis', res' @ [node])"
proof -
  from assms(1) obtain new where n: "res' = res @ new" "distinct new"
    "set new \<inter> insert node vis = {}" "vis' = insert node vis \<union> set new"
    unfolding extends_def by auto
  have "res' @ [node] = res @ (new @ [node])" using n by simp
  moreover have "distinct (new @ [node])" using n by auto
  moreover have "set (new @ [node]) \<inter> vis = {}" using n assms(2) by auto
  moreover have "vis' = vis \<union> set (new @ [node])" using n by auto
  ultimately show ?thesis unfolding extends_def by (metis fst_conv snd_conv)
qed

lemma visit_extends:
  "extends s (visit g node s) \<and> node \<in> fst (visit g node s)"
  "extends s (visit_all g ns s) \<and> set ns \<subseteq> fst (visit_all g ns s)"
proof (induction g node s and g ns s rule: visit_visit_all.induct)
  case (1 g node visited result)
  show ?case
  proof (cases "node \<in> visited")
    case True
    then show ?thesis by (simp add: visit.simps extends_refl)
  next
    case False
    obtain v' r' where r: "visit_all g (adj_get g node) (insert node visited, result) = (v', r')"
      by (cases "visit_all g (adj_get g node) (insert node visited, result)")
    with 1[OF False] have e: "extends (insert node visited, result) (v', r')" by simp
    then have "node \<in> v'" by (auto simp: extends_def)
    with extends_snoc[OF e False] False r show ?thesis by (simp add: visit.simps)
  qed
next
  case (2 g s)
  then show ?case by (simp add: extends_refl)
next
  case (3 g neighbor rest s)
  let ?s1 = "visit g neighbor s"
  from 3 have a: "extends s ?s1" "neighbor \<in> fst ?s1"
    and b: "extends ?s1 (visit_all g rest ?s1)" "set rest \<subseteq> fst (visit_all g rest ?s1)"
    by auto
  from b(1) a(2) have "neighbor \<in> fst (visit_all g rest ?s1)" by (auto simp: extends_def)
  with extends_trans[OF a(1) b(1)] b(2) show ?case by simp
qed

lemma topsort_distinct_keys: "distinct (topsort g) \<and> set (keys g) \<subseteq> set (topsort g)"
proof -
  let ?s = "visit_all g (keys g) ({}, [])"
  from visit_extends(2)[of "({}, [])" g "keys g"]
  have e: "extends ({}, []) ?s" and k: "set (keys g) \<subseteq> fst ?s" by auto
  from e have "distinct (snd ?s)" "fst ?s = set (snd ?s)" by (auto simp: extends_def)
  with k show ?thesis by (simp add: topsort_def)
qed

lemma distinct_count_list: "distinct xs \<Longrightarrow> x \<in> set xs \<Longrightarrow> count_list xs x = 1"
  by (induction xs) auto

text \<open>
  Claim C10. On every graph, cyclic or not, \<^verbatim>\<open>topsort()\<close> returns (\<open>topsort\<close> is
  a total function, its termination proved at the definition of \<open>visit\<close>) a list
  without repetition that contains every key of the adjacency mapping, so each key
  occurs in it exactly once.
\<close>

theorem topsort_total:
  "distinct (topsort g) \<and> set (keys g) \<subseteq> set (topsort g) \<and>
   (\<forall>k \<in> set (keys g). count_list (topsort g) k = 1)"
  using topsort_distinct_keys[of g]
  by (auto simp: distinct_count_list)

lemma topsort_g_cyc: "topsort g_cyc = [1, 2, 3]"
  by (simp add: g_cyc_def topsort_def keys_def visit.simps adj_get_def)

theorem topsort_total_witness:
  "topsort g_cyc = [1, 2, 3] \<and> distinct (topsort g_cyc) \<and>
   2 \<in> set (keys g_cyc) \<and> count_list (topsort g_cyc) 2 = 1"
proof -
  have "2 \<in> set (keys g_cyc)" by (simp add: g_cyc_def keys_def)
  with topsort_total[of g_cyc] topsort_g_cyc show ?thesis by blast
qed

lemma topo_sorted_closed: "topo_sorted r xs \<Longrightarrow> x \<in> set xs \<Longrightarrow> r `` {x} \<subseteq> set xs"
  by (induction xs) auto

lemma topo_sorted_index:
  "topo_sorted r xs \<Longrightarrow> (u, v) \<in> r \<Longrightarrow> u \<in> set xs \<Longrightarrow>
     \<exists>i j. i < j \<and> j < length xs \<and> xs ! i = u \<and> xs ! j = v"
proof (induction xs)
  case Nil
  then show ?case by simp
next
  case (Cons x xs)
  show ?case
  proof (cases "u = x")
    case True
    with Cons.prems have "v \<in> set xs" by auto
    then obtain k where "k < length xs" "xs ! k = v" by (auto simp: in_set_conv_nth)
    with True have "0 < Suc k \<and> Suc k < length (x # xs) \<and> (x # xs) ! 0 = u \<and> (x # xs) ! Suc k = v"
      by simp
    then show ?thesis by blast
  next
    case False
    with Cons obtain i j where "i < j" "j < length xs" "xs ! i = u" "xs ! j = v" by auto
    then have "Suc i < Suc j \<and> Suc j < length (x # xs) \<and> (x # xs) ! Suc i = u \<and> (x # xs) ! Suc j = v"
      by simp
    then show ?thesis by blast
  qed
qed

lemma extends_grey:
  "extends s s' \<Longrightarrow> set (snd s) \<subseteq> fst s \<Longrightarrow>
     set (snd s') \<subseteq> fst s' \<and> fst s' - set (snd s') = fst s - set (snd s)"
  unfolding extends_def by auto

lemma visit_topo:
  assumes ac: "acyclic (edges g)"
  shows "topo_pre g {node} s \<Longrightarrow> topo_sorted (edges g) (rev (snd (visit g node s)))"
    and "topo_pre g (set ns) s \<Longrightarrow> topo_sorted (edges g) (rev (snd (visit_all g ns s)))"
  using ac
proof (induction g node s and g ns s rule: visit_visit_all.induct)
  case (1 g node visited result)
  show ?case
  proof (cases "node \<in> visited")
    case True
    with 1(2) show ?thesis by (simp add: visit.simps topo_pre_def)
  next
    case False
    let ?E = "edges g"
    let ?s0 = "(insert node visited, result)"
    obtain v' r' where r: "visit_all g (adj_get g node) ?s0 = (v', r')"
      by (cases "visit_all g (adj_get g node) ?s0")
    from 1(2) have ts: "topo_sorted ?E (rev result)" and sub: "set result \<subseteq> visited"
      and grey: "\<forall>x \<in> visited - set result. (x, node) \<in> ?E\<^sup>*"
      by (auto simp: topo_pre_def)
    have step: "\<And>x n. (x, node) \<in> ?E\<^sup>* \<Longrightarrow> n \<in> set (adj_get g node) \<Longrightarrow> (x, n) \<in> ?E\<^sup>*"
      by (auto simp: edges_iff intro: rtrancl_into_rtrancl)
    have pre: "topo_pre g (set (adj_get g node)) ?s0"
      unfolding topo_pre_def using ts sub grey step by auto
    from 1(1)[OF False pre 1(3)] r have ts': "topo_sorted ?E (rev r')" by simp
    from visit_extends(2)[of ?s0 g "adj_get g node"] r
    have e: "extends ?s0 (v', r')" and nb: "set (adj_get g node) \<subseteq> v'" by auto
    from extends_grey[OF e] sub
    have g': "v' - set r' = insert node visited - set result" by auto
    have "?E `` {node} \<subseteq> set r'"
    proof
      fix n assume "n \<in> ?E `` {node}"
      then have n: "n \<in> set (adj_get g node)" and en: "(node, n) \<in> ?E"
        by (auto simp: edges_iff)
      show "n \<in> set r'"
      proof (rule ccontr)
        assume "n \<notin> set r'"
        with n nb g' have "n \<in> insert node visited - set result" by auto
        with grey have "(n, node) \<in> ?E\<^sup>*" by auto
        with en have "(node, node) \<in> ?E\<^sup>+" by (auto intro: rtrancl_into_trancl2)
        with 1(3) show False by (auto simp: acyclic_def)
      qed
    qed
    with ts' False r show ?thesis by (simp add: visit.simps)
  qed
next
  case (2 g s)
  then show ?case by (simp add: topo_pre_def)
next
  case (3 g neighbor rest s)
  let ?s1 = "visit g neighbor s"
  from 3(3) have p1: "topo_pre g {neighbor} s" by (auto simp: topo_pre_def)
  from 3(1)[OF p1 3(4)] have ts1: "topo_sorted (edges g) (rev (snd ?s1))" .
  from 3(3) have sub: "set (snd s) \<subseteq> fst s" by (simp add: topo_pre_def)
  from extends_grey[OF conjunct1[OF visit_extends(1)[of s g neighbor]] sub]
  have "set (snd ?s1) \<subseteq> fst ?s1" "fst ?s1 - set (snd ?s1) = fst s - set (snd s)" by auto
  with ts1 3(3) have p2: "topo_pre g (set rest) ?s1" by (auto simp: topo_pre_def)
  from 3(2)[OF p2 3(4)] show ?case by simp
qed

lemma topsort_topo_sorted: "acyclic (edges g) \<Longrightarrow> topo_sorted (edges g) (topsort g)"
  unfolding topsort_def by (rule visit_topo(2)) (simp_all add: topo_pre_def)

lemma visit_within:
  "fst (visit g node s) \<subseteq> fst s \<union> {node} \<union> Range (edges g)"
  "fst (visit_all g ns s) \<subseteq> fst s \<union> set ns \<union> Range (edges g)"
proof (induction g node s and g ns s rule: visit_visit_all.induct)
  case (1 g node visited result)
  show ?case
  proof (cases "node \<in> visited")
    case True
    then show ?thesis by (auto simp: visit.simps)
  next
    case False
    have "set (adj_get g node) \<subseteq> Range (edges g)" by (auto simp: edges_iff)
    with 1[OF False] False show ?thesis
      by (auto simp: visit.simps split: prod.splits)
  qed
next
  case (2 g s)
  then show ?case by simp
next
  case (3 g neighbor rest s)
  then show ?case by auto
qed

lemma set_topsort_acyclic:
  assumes "acyclic (edges g)"
  shows "set (topsort g) = nodes g"
proof
  let ?s = "visit_all g (keys g) ({}, [])"
  from visit_extends(2)[of "({}, [])" g "keys g"]
  have "fst ?s = set (snd ?s)" by (auto simp: extends_def)
  with visit_within(2)[of g "keys g" "({}, [])"]
  show "set (topsort g) \<subseteq> nodes g" by (simp add: topsort_def nodes_def)
next
  show "nodes g \<subseteq> set (topsort g)"
  proof
    fix v assume "v \<in> nodes g"
    then consider "v \<in> set (keys g)" | u where "(u, v) \<in> edges g"
      by (auto simp: nodes_def)
    then show "v \<in> set (topsort g)"
    proof cases
      case 1
      with topsort_distinct_keys[of g] show ?thesis by auto
    next
      case 2
      then have "adj_get g u \<noteq> []" by (auto simp: edges_iff)
      then have "u \<in> set (keys g)" using adj_get_not_key[of u g] by blast
      with topsort_distinct_keys[of g] have "u \<in> set (topsort g)" by auto
      from topo_sorted_closed[OF topsort_topo_sorted[OF assms] this] 2 show ?thesis by auto
    qed
  qed
qed

lemma nodes_closed: "Range (edges g) \<subseteq> set (keys g) \<Longrightarrow> nodes g = set (keys g)"
  by (auto simp: nodes_def)

text \<open>
  Claim C3. On a graph whose adjacency relation is acyclic, \<^verbatim>\<open>topsort()\<close> returns
  every node exactly once, so its length is the number of nodes, and for every edge
  from \<open>u\<close> to \<open>v\<close> it has \<open>u\<close> at an earlier index than \<open>v\<close>. Where the keys
  are distinct and every edge target is a key, as in every graph the insertion methods
  build, the nodes are the keys and the result is a permutation of them.
\<close>

theorem topsort_valid:
  assumes "acyclic (edges g)"
  shows "distinct (topsort g) \<and> set (topsort g) = nodes g \<and>
         length (topsort g) = card (nodes g) \<and>
         (distinct (keys g) \<and> Range (edges g) \<subseteq> set (keys g) \<longrightarrow>
            set (topsort g) = set (keys g) \<and> length (topsort g) = length (keys g)) \<and>
         (\<forall>(u, v) \<in> edges g. \<exists>i j. i < j \<and> j < length (topsort g) \<and>
            topsort g ! i = u \<and> topsort g ! j = v)"
proof -
  have d: "distinct (topsort g)" using topsort_distinct_keys[of g] by simp
  have s: "set (topsort g) = nodes g" by (rule set_topsort_acyclic[OF assms])
  have l: "length (topsort g) = card (nodes g)"
    using distinct_card[OF d] s by simp
  have k: "set (topsort g) = set (keys g) \<and> length (topsort g) = length (keys g)"
    if "distinct (keys g)" "Range (edges g) \<subseteq> set (keys g)"
    using that s l nodes_closed[of g] distinct_card[of "keys g"] by simp
  have o: "\<exists>i j. i < j \<and> j < length (topsort g) \<and> topsort g ! i = u \<and> topsort g ! j = v"
    if "(u, v) \<in> edges g" for u v
  proof -
    from that have "u \<in> nodes g"
      using adj_get_not_key[of u g] by (auto simp: nodes_def edges_iff)
    with s have "u \<in> set (topsort g)" by simp
    from topo_sorted_index[OF topsort_topo_sorted[OF assms] that this] show ?thesis .
  qed
  from d s l k o show ?thesis by blast
qed

lemma acyclic_clothes: "acyclic (edges clothes)"
  using foldl_dag_call_acyclic[of init clothes_calls]
  by (simp add: clothes_built edges_init acyclic_def)

lemma topsort_clothes:
  "topsort clothes =
     [''socks'', ''pants'', ''shoes'', ''shirt'', ''belt'', ''tie'', ''jacket'']"
  by (simp add: clothes_def topsort_def keys_def visit.simps adj_get_def)

theorem topsort_valid_witness:
  "acyclic (edges clothes) \<and> distinct (topsort clothes) \<and>
   set (topsort clothes) = nodes clothes \<and> length (topsort clothes) = card (nodes clothes) \<and>
   (''tie'', ''jacket'') \<in> edges clothes \<and>
   (\<exists>i j. i < j \<and> j < length (topsort clothes) \<and>
          topsort clothes ! i = ''tie'' \<and> topsort clothes ! j = ''jacket'')"
proof -
  have e: "(''tie'', ''jacket'') \<in> edges clothes"
    by (simp add: edges_iff clothes_def adj_get_def)
  from topsort_valid[OF acyclic_clothes] e acyclic_clothes show ?thesis by fast
qed

section \<open>Traversals\<close>

lemma reach_refl: "s \<in> reach g s"
  by (simp add: reach_def)

lemma dfs_post_append:
  assumes "dfs_post g vis (v1, ys)" and "dfs_post g v1 (v2, zs)"
  shows "dfs_post g vis (v2, ys @ zs)"
  using assms unfolding dfs_post_def by auto

lemma dfs_post_cons:
  assumes "dfs_post g (insert start vis) (v', ys)" and "start \<notin> vis"
    and "set (adj_get g start) \<subseteq> v'"
  shows "dfs_post g vis (v', start # ys)"
  using assms unfolding dfs_post_def by auto

lemma reach_step: "x \<in> reach g n \<Longrightarrow> n \<in> set (adj_get g s) \<Longrightarrow> x \<in> reach g s"
  by (auto simp: reach_def edges_iff intro: converse_rtrancl_into_rtrancl)

lemma dfs_from_post:
  "None \<notin> reach g start \<Longrightarrow>
     dfs_post g vis (dfs_from g start vis) \<and> start \<in> fst (dfs_from g start vis) \<and>
     set (snd (dfs_from g start vis)) \<subseteq> reach g start"
  "None \<notin> (\<Union>n \<in> set ns. reach g n) \<Longrightarrow>
     dfs_post g vis (dfs_loop g ns vis) \<and> set ns \<subseteq> fst (dfs_loop g ns vis) \<and>
     set (snd (dfs_loop g ns vis)) \<subseteq> (\<Union>n \<in> set ns. reach g n)"
proof (induction g start vis and g ns vis rule: dfs_from_dfs_loop.induct)
  case (1 g start visited)
  from 1(2) reach_refl[of start g] obtain s where s: "start = Some s" by (cases start) auto
  then have ds: "default_start g start = Some s" by (simp add: default_start_def)
  show ?case
  proof (cases "start \<in> visited")
    case True
    with s ds show ?thesis by (simp add: dfs_from.simps dfs_post_def)
  next
    case False
    with s have nv: "Some s \<notin> visited" by simp
    obtain v' ys where r: "dfs_loop g (adj_get g start) (insert start visited) = (v', ys)"
      by (cases "dfs_loop g (adj_get g start) (insert start visited)")
    have "None \<notin> (\<Union>n \<in> set (adj_get g start). reach g n)"
      using 1(2) reach_step[of None g _ start] by auto
    with 1(1)[OF ds nv] s r have p: "dfs_post g (insert start visited) (v', ys)"
      and nb: "set (adj_get g start) \<subseteq> v'"
      and rc: "set ys \<subseteq> (\<Union>n \<in> set (adj_get g start). reach g n)" by auto
    from p have "start \<in> v'" by (auto simp: dfs_post_def)
    moreover have "set (start # ys) \<subseteq> reach g start"
      using rc reach_step[of _ g _ start] by (auto simp: reach_def)
    ultimately show ?thesis
      using dfs_post_cons[OF p False nb] nv r s ds by (simp add: dfs_from.simps)
  qed
next
  case (2 g visited)
  then show ?case by (simp add: dfs_post_def)
next
  case (3 g neighbor rest visited)
  from 3(4) have h1: "None \<notin> reach g neighbor"
    and h2: "None \<notin> (\<Union>n \<in> set rest. reach g n)" by auto
  show ?case
  proof (cases "neighbor \<in> visited")
    case True
    with 3(3)[OF _ h2] show ?thesis by (auto simp: dfs_post_def)
  next
    case False
    obtain v1 ys where r1: "dfs_from g neighbor visited = (v1, ys)"
      by (cases "dfs_from g neighbor visited")
    obtain v2 zs where r2: "dfs_loop g rest v1 = (v2, zs)"
      by (cases "dfs_loop g rest v1")
    from 3(1)[OF False h1] r1 have p1: "dfs_post g visited (v1, ys)" and n1: "neighbor \<in> v1"
      and c1: "set ys \<subseteq> reach g neighbor" by auto
    from 3(2)[OF False r1[symmetric] h2] r2 have p2: "dfs_post g v1 (v2, zs)"
      and n2: "set rest \<subseteq> v2" and c2: "set zs \<subseteq> (\<Union>n \<in> set rest. reach g n)" by auto
    from p2 n1 have "neighbor \<in> v2" by (auto simp: dfs_post_def)
    with dfs_post_append[OF p1 p2] n2 c1 c2 False r1 r2 show ?thesis by auto
  qed
qed

lemma reach_subset_closed:
  assumes "s \<in> S" and "\<forall>x \<in> S. set (adj_get g x) \<subseteq> S"
  shows "reach g s \<subseteq> S"
proof
  fix x assume "x \<in> reach g s"
  then have "(s, x) \<in> (edges g)\<^sup>*" by (simp add: reach_def)
  from closed_reach[OF this assms(1)] assms(2) show "x \<in> S" by (auto simp: edges_iff)
qed

lemma closed_reach_eq:
  assumes "s \<in> S" and "S \<subseteq> reach g s" and "\<forall>x \<in> S. set (adj_get g x) \<subseteq> S"
  shows "S = reach g s"
  using reach_subset_closed[OF assms(1,3)] assms(2) by auto

lemma dfs_reach:
  assumes "None \<notin> reach g (Some s)"
  shows "set (dfs g (Some s)) = reach g (Some s) \<and> distinct (dfs g (Some s))"
proof -
  obtain v ys where r: "dfs_from g (Some s) {} = (v, ys)" by (cases "dfs_from g (Some s) {}")
  with dfs_from_post(1)[OF assms, of "{}"]
  have "dfs_post g {} (v, ys)" "Some s \<in> v" "set ys \<subseteq> reach g (Some s)" by auto
  then have "distinct ys" "Some s \<in> set ys" "set ys \<subseteq> reach g (Some s)"
    "\<forall>x \<in> set ys. set (adj_get g x) \<subseteq> set ys"
    by (auto simp: dfs_post_def)
  with closed_reach_eq[of "Some s" "set ys" g] r show ?thesis by (simp add: dfs_def)
qed

lemma dfs_absent: "Some s \<notin> set (keys g) \<Longrightarrow> dfs g (Some s) = [Some s]"
  by (simp add: dfs_def dfs_from.simps default_start_def adj_get_not_key)

lemma bfs_absent: "s \<notin> set (keys g) \<Longrightarrow> bfs g (Some s) = (if g = [] then [] else [s])"
  by (simp add: bfs_def adj_get_not_key)

lemma bfs_scan_char:
  "\<exists>new. bfs_scan ns (vis, q) = (vis \<union> set ns, q @ new) \<and> distinct new \<and>
         set new = set ns - vis"
proof (induction ns arbitrary: vis q)
  case Nil
  then show ?case by simp
next
  case (Cons n ns)
  show ?case
  proof (cases "n \<in> vis")
    case True
    from Cons[of vis q] obtain new where
      "bfs_scan ns (vis, q) = (vis \<union> set ns, q @ new)" "distinct new" "set new = set ns - vis"
      by blast
    with True have "bfs_scan (n # ns) (vis, q) = (vis \<union> set (n # ns), q @ new) \<and>
      distinct new \<and> set new = set (n # ns) - vis" by auto
    then show ?thesis by blast
  next
    case False
    from Cons[of "insert n vis" "q @ [n]"] obtain new where
      n: "bfs_scan ns (insert n vis, q @ [n]) = (insert n vis \<union> set ns, (q @ [n]) @ new)"
      "distinct new" "set new = set ns - insert n vis"
      by blast
    with False have "bfs_scan (n # ns) (vis, q) = (vis \<union> set (n # ns), q @ (n # new)) \<and>
      distinct (n # new) \<and> set (n # new) = set (n # ns) - vis" by auto
    then show ?thesis by blast
  qed
qed

lemma bfs_loop_reach:
  assumes "distinct queue" and "set queue \<subseteq> vis"
    and "\<forall>x \<in> vis - set queue. set (adj_get g x) \<subseteq> vis"
  shows "distinct (bfs_loop g vis queue) \<and>
         set (bfs_loop g vis queue) \<inter> vis = set queue \<and>
         (\<forall>x \<in> set (bfs_loop g vis queue) \<union> vis.
            set (adj_get g x) \<subseteq> set (bfs_loop g vis queue) \<union> vis) \<and>
         set (bfs_loop g vis queue) \<subseteq> (\<Union>n \<in> set queue. reach g n)"
  using assms
proof (induction g vis queue rule: bfs_loop.induct)
  case (1 g visited)
  then show ?case by simp
next
  case (2 g visited node queue)
  obtain new where sc: "bfs_scan (adj_get g node) (visited, queue) =
      (visited \<union> set (adj_get g node), queue @ new)"
    and dn: "distinct new" and sn: "set new = set (adj_get g node) - visited"
    using bfs_scan_char[of "adj_get g node" visited queue] by blast
  let ?vis' = "visited \<union> set (adj_get g node)"
  let ?q' = "queue @ new"
  let ?out' = "bfs_loop g ?vis' ?q'"
  have eq: "bfs_loop g visited (node # queue) = node # ?out'"
    using sc by simp
  have d': "distinct ?q'" using 2(2,3) dn sn by auto
  have s': "set ?q' \<subseteq> ?vis'" using 2(3) sn by auto
  have c': "\<forall>x \<in> ?vis' - set ?q'. set (adj_get g x) \<subseteq> ?vis'"
  proof
    fix x assume x: "x \<in> ?vis' - set ?q'"
    with sn have "x \<in> visited" "x \<notin> set queue" by auto
    then have "x = node \<or> x \<in> visited - set (node # queue)" by auto
    with 2(4) show "set (adj_get g x) \<subseteq> ?vis'" by auto
  qed
  from 2(1)[OF sc[symmetric] d' s' c']
  have a: "distinct ?out'" and b: "set ?out' \<inter> ?vis' = set ?q'"
    and c: "\<forall>x \<in> set ?out' \<union> ?vis'. set (adj_get g x) \<subseteq> set ?out' \<union> ?vis'"
    and d: "set ?out' \<subseteq> (\<Union>n \<in> set ?q'. reach g n)" by auto
  have nv: "node \<in> visited" "node \<notin> set queue" using 2(2,3) by auto
  have "node \<notin> set ?out'"
  proof
    assume "node \<in> set ?out'"
    with nv(1) b have "node \<in> set ?q'" by auto
    with nv sn show False by auto
  qed
  with a have A: "distinct (node # ?out')" by simp
  have B: "set (node # ?out') \<inter> visited = set (node # queue)"
    using b nv(1) sn 2(3) by auto
  have newsub: "set new \<subseteq> set ?out'" using b by auto
  have un: "set ?out' \<union> ?vis' = set (node # ?out') \<union> visited"
    using newsub sn nv(1) by auto
  have C: "\<forall>x \<in> set (node # ?out') \<union> visited.
      set (adj_get g x) \<subseteq> set (node # ?out') \<union> visited"
    using c unfolding un .
  have rn: "reach g n \<subseteq> reach g node" if "n \<in> set new" for n
    using that sn reach_step[of _ g n node] by auto
  have D: "set (node # ?out') \<subseteq> (\<Union>n \<in> set (node # queue). reach g n)"
  proof
    fix x assume "x \<in> set (node # ?out')"
    then consider "x = node" | "x \<in> set ?out'" by auto
    then show "x \<in> (\<Union>n \<in> set (node # queue). reach g n)"
    proof cases
      case 1
      then show ?thesis by (simp add: reach_def)
    next
      case 2
      with d obtain n where "n \<in> set ?q'" "x \<in> reach g n" by blast
      then show ?thesis using rn by auto
    qed
  qed
  from A B C D show ?case unfolding eq by blast
qed

lemma bfs_reach:
  assumes "g \<noteq> []"
  shows "set (bfs g (Some s)) = reach g s \<and> distinct (bfs g (Some s))"
proof -
  let ?out = "bfs_loop g {s} [s]"
  from bfs_loop_reach[of "[s]" "{s}" g]
  have "distinct ?out" "set ?out \<inter> {s} = {s}"
    "\<forall>x \<in> set ?out \<union> {s}. set (adj_get g x) \<subseteq> set ?out \<union> {s}"
    "set ?out \<subseteq> reach g s" by auto
  then have "distinct ?out" "s \<in> set ?out" "set ?out \<subseteq> reach g s"
    "\<forall>x \<in> set ?out. set (adj_get g x) \<subseteq> set ?out"
    by (auto simp: insert_absorb)
  with closed_reach_eq[of s "set ?out" g] assms show ?thesis by (simp add: bfs_def)
qed

lemma reach_component: "reach g s \<subseteq> component g s"
  unfolding reach_def component_def
  by (rule Image_mono[OF rtrancl_mono]) auto

lemma sym_component: "sym (edges g) \<Longrightarrow> component g s = reach g s"
proof -
  assume "sym (edges g)"
  then have "(edges g)\<inverse> = edges g" by (auto simp: sym_def)
  then show ?thesis by (simp add: component_def reach_def)
qed

text \<open>
  Claim C7, as amended. For every graph and every node of it, \<^verbatim>\<open>bfs\<close> from that node
  yields exactly the nodes that it reaches along directed edges, each of them once;
  \<^verbatim>\<open>dfs\<close> does the same provided \<^verbatim>\<open>None\<close> is not among the nodes reached. That set
  is the connected component of the start when the edge relation is symmetric.
\<close>

theorem traversal_reach:
  "(Some s \<in> set (keys g) \<and> None \<notin> reach g (Some s) \<longrightarrow>
      set (dfs g (Some s)) = reach g (Some s) \<and> distinct (dfs g (Some s)) \<and>
      (sym (edges g) \<longrightarrow> set (dfs g (Some s)) = component g (Some s))) \<and>
   (t \<in> set (keys h) \<longrightarrow>
      set (bfs h (Some t)) = reach h t \<and> distinct (bfs h (Some t)) \<and>
      (sym (edges h) \<longrightarrow> set (bfs h (Some t)) = component h t))"
proof -
  have "h \<noteq> []" if "t \<in> set (keys h)"
    using that by (auto simp: keys_def)
  with bfs_reach[of h t] dfs_reach[of g s] sym_component[of g "Some s"] sym_component[of h t]
  show ?thesis by auto
qed

lemma dfs_g_chain_py: "dfs g_chain_py (Some 2) = [Some 2, Some 3]"
  by (simp add: g_chain_py_def dfs_def dfs_from.simps default_start_def adj_get_def)

lemma bfs_g_chain: "bfs g_chain (Some 2) = [2, 3]"
  by (simp add: g_chain_def bfs_def adj_get_def)

lemma edges_g_chain: "edges g_chain = {(1, 2), (2, 3)}"
  by (auto simp: edges_def g_chain_def adj_get_def split: if_splits)

lemma edges_g_chain_py: "edges g_chain_py = {(Some 1, Some 2), (Some 2, Some 3)}"
  by (auto simp: edges_def g_chain_py_def adj_get_def split: if_splits)

lemma reach_g_chain_py: "reach g_chain_py (Some 2) \<subseteq> {Some 2, Some 3}"
  by (rule reach_subset_closed) (simp_all add: g_chain_py_def adj_get_def)

lemma component_g_chain: "1 \<in> component g_chain 2"
proof -
  have "(2, 1) \<in> edges g_chain \<union> (edges g_chain)\<inverse>" by (simp add: edges_g_chain)
  then show ?thesis unfolding component_def by blast
qed

lemma component_g_chain_py: "Some 1 \<in> component g_chain_py (Some 2)"
proof -
  have "(Some 2, Some 1) \<in> edges g_chain_py \<union> (edges g_chain_py)\<inverse>"
    by (simp add: edges_g_chain_py)
  then show ?thesis unfolding component_def by blast
qed

lemma strong_component_g_chain: "3 \<notin> strong_component g_chain 2"
proof
  assume "3 \<in> strong_component g_chain 2"
  then have "(3, 2) \<in> (edges g_chain)\<^sup>*" by (simp add: strong_component_def)
  then show False
    by (cases rule: converse_rtranclE) (auto simp: edges_g_chain)
qed

lemma strong_component_g_chain_py: "Some 3 \<notin> strong_component g_chain_py (Some 2)"
proof
  assume "Some 3 \<in> strong_component g_chain_py (Some 2)"
  then have "(Some 3, Some 2) \<in> (edges g_chain_py)\<^sup>*" by (simp add: strong_component_def)
  then show False
    by (cases rule: converse_rtranclE) (auto simp: edges_g_chain_py)
qed

theorem traversal_reach_witness:
  "Some 2 \<in> set (keys g_chain_py) \<and> None \<notin> reach g_chain_py (Some 2) \<and>
   set (dfs g_chain_py (Some 2)) = reach g_chain_py (Some 2) \<and>
   reach g_chain_py (Some 2) = {Some 2, Some 3} \<and>
   2 \<in> set (keys g_chain) \<and> set (bfs g_chain (Some 2)) = reach g_chain 2 \<and>
   reach g_chain 2 = {2, 3}"
proof -
  have k: "Some 2 \<in> set (keys g_chain_py)" "2 \<in> set (keys g_chain)"
    by (simp_all add: g_chain_py_def g_chain_def keys_def)
  have n: "None \<notin> reach g_chain_py (Some 2)" using reach_g_chain_py by auto
  from traversal_reach[of 2 g_chain_py 2 g_chain] k n dfs_g_chain_py bfs_g_chain
  show ?thesis by auto
qed

text \<open>
  Claim C7 as stated fails: in the chain \<open>1 \<rightarrow> 2 \<rightarrow> 3\<close>, both traversals from \<open>2\<close> yield
  \<open>2, 3\<close>, which is neither the connected component of \<open>2\<close> (it lacks \<open>1\<close>) nor its
  strongly connected component (it has \<open>3\<close>).
\<close>

theorem traversal_component_counterexample:
  "Some 2 \<in> set (keys g_chain_py) \<and>
   set (dfs g_chain_py (Some 2)) \<noteq> component g_chain_py (Some 2) \<and>
   set (dfs g_chain_py (Some 2)) \<noteq> strong_component g_chain_py (Some 2) \<and>
   2 \<in> set (keys g_chain) \<and>
   set (bfs g_chain (Some 2)) \<noteq> component g_chain 2 \<and>
   set (bfs g_chain (Some 2)) \<noteq> strong_component g_chain 2"
proof -
  have "Some 2 \<in> set (keys g_chain_py)" "2 \<in> set (keys g_chain)"
    by (simp_all add: g_chain_py_def g_chain_def keys_def)
  moreover have "Some 1 \<notin> set (dfs g_chain_py (Some 2))" "1 \<notin> set (bfs g_chain (Some 2))"
    "Some 3 \<in> set (dfs g_chain_py (Some 2))" "3 \<in> set (bfs g_chain (Some 2))"
    by (simp_all add: dfs_g_chain_py bfs_g_chain)
  ultimately show ?thesis
    using component_g_chain strong_component_g_chain
      component_g_chain_py strong_component_g_chain_py by metis
qed

text \<open>
  Where \<^verbatim>\<open>None\<close> is reached, \<^verbatim>\<open>dfs\<close> differs: the recursive call on the neighbour
  \<^verbatim>\<open>None\<close> takes the first key for its start. On the graph that \<^verbatim>\<open>add_node(0)\<close> and
  \<^verbatim>\<open>add_edge(1, None)\<close> build, \<^verbatim>\<open>dfs(1)\<close> yields \<open>1, 0\<close>, though \<open>1\<close> reaches \<open>1\<close> and
  \<^verbatim>\<open>None\<close> only.
\<close>

lemma g_none_built:
  "snd (add_edge (add_node init (Some 0)) (Some 1) None) = g_none"
  by (simp add: g_none_def init_def add_edge_def add_node_def keys_def)

lemma dfs_g_none: "dfs g_none (Some 1) = [Some 1, Some 0]"
  by (simp add: g_none_def dfs_def dfs_from.simps default_start_def keys_def adj_get_def)

text \<open>
  Claim C9, as amended. For a start that is not a key of the graph (and is not
  \<^verbatim>\<open>None\<close>, which stands for a start left out), neither traversal raises;
  \<^verbatim>\<open>dfs(start)\<close> yields the start alone, and so does \<^verbatim>\<open>bfs(start)\<close> unless the graph
  is empty, where it yields nothing.
\<close>

theorem absent_start:
  "(Some s \<notin> set (keys g) \<longrightarrow> dfs g (Some s) = [Some s]) \<and>
   (t \<notin> set (keys h) \<longrightarrow> bfs h (Some t) = (if h = [] then [] else [t]))"
  by (simp add: dfs_absent bfs_absent)

text \<open>
  Claim C9 as stated fails: on a graph with keys \<open>1, 2, 3\<close>, both traversals from
  the absent node \<open>7\<close> yield a non-empty sequence.
\<close>

theorem absent_start_counterexample:
  "Some 7 \<notin> set (keys g_cyc_py) \<and> dfs g_cyc_py (Some 7) \<noteq> [] \<and>
   7 \<notin> set (keys g_cyc) \<and> bfs g_cyc (Some 7) \<noteq> []"
  by (simp add: g_cyc_py_def g_cyc_def keys_def dfs_def dfs_from.simps default_start_def
      bfs_def adj_get_def)

theorem absent_start_witness:
  "Some 7 \<notin> set (keys g_cyc_py) \<and> dfs g_cyc_py (Some 7) = [Some 7] \<and>
   7 \<notin> set (keys g_cyc) \<and> bfs g_cyc (Some 7) = [7] \<and>
   Some (0::nat) \<notin> set (keys init) \<and> dfs init (Some (0::nat)) = [Some 0] \<and>
   (0::nat) \<notin> set (keys init) \<and> bfs init (Some (0::nat)) = []"
proof -
  have a: "Some 7 \<notin> set (keys g_cyc_py)" "7 \<notin> set (keys g_cyc)" "g_cyc \<noteq> []"
    by (simp_all add: g_cyc_py_def g_cyc_def keys_def)
  have b: "Some (0::nat) \<notin> set (keys init)" "(0::nat) \<notin> set (keys init)"
    "(init :: nat graph) = []"
    by (simp_all add: init_def keys_def)
  from absent_start[of 7 g_cyc_py 7 g_cyc] absent_start[of "0::nat" init "0::nat" init] a b
  show ?thesis by simp
qed

section \<open>Breadth-first layering\<close>

lemma dist_le: "(s, x) \<in> edges g ^^ n \<Longrightarrow> dist g s x \<le> n"
  unfolding dist_def by (rule Least_le)

lemma dist_path: "x \<in> reach g s \<Longrightarrow> (s, x) \<in> edges g ^^ dist g s x"
proof -
  assume "x \<in> reach g s"
  then obtain n where "(s, x) \<in> edges g ^^ n"
    by (auto simp: reach_def dest: rtrancl_imp_relpow)
  then show ?thesis unfolding dist_def by (rule LeastI)
qed

lemma dist_self: "dist g s s = 0"
  using dist_le[where s = s and x = s and g = g and n = 0] by simp

lemma dist_zero: "x \<in> reach g s \<Longrightarrow> dist g s x = 0 \<Longrightarrow> x = s"
  using dist_path[of x g s] by simp

lemma dist_step:
  assumes "x \<in> reach g s" and "y \<in> set (adj_get g x)"
  shows "y \<in> reach g s" and "dist g s y \<le> dist g s x + 1"
proof -
  from assms show "y \<in> reach g s"
    by (auto simp: reach_def edges_iff intro: rtrancl_into_rtrancl)
  from dist_path[OF assms(1)] assms(2) have "(s, y) \<in> edges g ^^ Suc (dist g s x)"
    by (auto simp: edges_iff)
  from dist_le[OF this] show "dist g s y \<le> dist g s x + 1" by simp
qed

lemma dist_pred:
  assumes "y \<in> reach g s" and "dist g s y = Suc k"
  shows "\<exists>x \<in> reach g s. y \<in> set (adj_get g x) \<and> dist g s x = k"
proof -
  from dist_path[OF assms(1)] assms(2) have "(s, y) \<in> edges g ^^ Suc k" by simp
  then obtain x where x: "(s, x) \<in> edges g ^^ k" "(x, y) \<in> edges g" by auto
  then have r: "x \<in> reach g s" by (auto simp: reach_def dest: relpow_imp_rtrancl)
  from x(2) have a: "y \<in> set (adj_get g x)" by (simp add: edges_iff)
  from dist_le[OF x(1)] dist_step(2)[OF r a] assms(2) have "dist g s x = k" by simp
  with r a show ?thesis by blast
qed

lemma sorted_wrt_all: "(\<forall>x \<in> set xs. \<forall>y \<in> set xs. P x y) \<Longrightarrow> sorted_wrt P xs"
  by (induction xs) auto

lemma bfs_inv_init: "bfs_inv g s {s} [s]"
  unfolding bfs_inv_def using dist_zero[of _ g s]
  by (auto simp: reach_def dist_self)

lemma bfs_inv_step:
  assumes inv: "bfs_inv g s vis (node # rest)"
    and new: "set new = set (adj_get g node) - vis"
  shows "bfs_inv g s (vis \<union> set (adj_get g node)) (rest @ new)"
    and "\<forall>x \<in> set (rest @ new). dist g s node \<le> dist g s x"
proof -
  let ?d = "dist g s"
  let ?vis' = "vis \<union> set (adj_get g node)"
  from inv have sub: "set (node # rest) \<subseteq> vis" and rch: "vis \<subseteq> reach g s"
    and cl: "\<forall>x \<in> vis - set (node # rest). set (adj_get g x) \<subseteq> vis"
    and so: "sorted_wrt (\<lambda>x y. ?d x \<le> ?d y) (node # rest)"
    and sp: "\<forall>h \<in> set (node # rest). \<forall>x \<in> set (node # rest). ?d x \<le> ?d h + 1"
    and lv: "\<forall>x \<in> reach g s. ?d x \<le> ?d node \<longrightarrow> x \<in> vis"
    unfolding bfs_inv_def by auto
  from sub rch have nr: "node \<in> reach g s" by auto
  have dn: "?d n = ?d node + 1" if "n \<in> set new" for n
  proof -
    from that new have a: "n \<in> set (adj_get g node)" and nv: "n \<notin> vis" by auto
    from dist_step[OF nr a] have r: "n \<in> reach g s" and le: "?d n \<le> ?d node + 1" by auto
    from lv r nv have "\<not> ?d n \<le> ?d node" by auto
    with le show "?d n = ?d node + 1" by simp
  qed
  have dr: "?d node \<le> ?d r \<and> ?d r \<le> ?d node + 1" if "r \<in> set rest" for r
    using that so sp by auto
  show low: "\<forall>x \<in> set (rest @ new). ?d node \<le> ?d x"
    using dn dr by auto
  have hi: "\<forall>x \<in> set (rest @ new). ?d x \<le> ?d node + 1"
    using dn dr by auto
  have s1: "set (rest @ new) \<subseteq> ?vis'" using sub new by auto
  have s2: "?vis' \<subseteq> reach g s" using rch dist_step(1)[OF nr] by auto
  have s3: "\<forall>x \<in> ?vis' - set (rest @ new). set (adj_get g x) \<subseteq> ?vis'"
  proof
    fix x assume "x \<in> ?vis' - set (rest @ new)"
    with new have "x \<in> vis" "x \<notin> set rest" by auto
    then have "x = node \<or> x \<in> vis - set (node # rest)" by auto
    with cl show "set (adj_get g x) \<subseteq> ?vis'" by auto
  qed
  have "sorted_wrt (\<lambda>x y. ?d x \<le> ?d y) new"
    using dn by (intro sorted_wrt_all) simp
  then have s4: "sorted_wrt (\<lambda>x y. ?d x \<le> ?d y) (rest @ new)"
    using so dn dr by (auto simp: sorted_wrt_append)
  have s5: "\<forall>h \<in> set (rest @ new). \<forall>x \<in> set (rest @ new). ?d x \<le> ?d h + 1"
    using low hi by (meson le_trans add_le_mono1)
  have s6: "\<forall>x \<in> reach g s. rest @ new \<noteq> [] \<and> ?d x \<le> ?d (hd (rest @ new)) \<longrightarrow> x \<in> ?vis'"
  proof (intro ballI impI)
    fix x assume xr: "x \<in> reach g s"
      and h: "rest @ new \<noteq> [] \<and> ?d x \<le> ?d (hd (rest @ new))"
    let ?h = "hd (rest @ new)"
    from h have "rest @ new \<noteq> []" by simp
    then have hin: "?h \<in> set (rest @ new)" by (rule hd_in_set)
    with hi have hle: "?d ?h \<le> ?d node + 1" by blast
    show "x \<in> ?vis'"
    proof (cases "?d x \<le> ?d node")
      case True
      with lv xr show ?thesis by auto
    next
      case False
      with h hle have dx: "?d x = Suc (?d node)" and dh: "?d ?h = Suc (?d node)" by auto
      from dist_pred[OF xr dx] obtain p where p: "p \<in> reach g s"
        "x \<in> set (adj_get g p)" "?d p = ?d node" by blast
      with lv have pv: "p \<in> vis" by auto
      have "p \<notin> set rest"
      proof
        assume pr: "p \<in> set rest"
        then have "rest \<noteq> []" by auto
        then have "?h = hd rest" by simp
        moreover from so have "sorted_wrt (\<lambda>x y. ?d x \<le> ?d y) rest" by simp
        ultimately have "?d ?h \<le> ?d p"
          using pr \<open>rest \<noteq> []\<close> by (cases rest) auto
        with dh p(3) show False by simp
      qed
      with pv have "p = node \<or> p \<in> vis - set (node # rest)" by auto
      with cl p(2) show ?thesis by auto
    qed
  qed
  from s1 s2 s3 s4 s5 s6 show "bfs_inv g s ?vis' (rest @ new)"
    unfolding bfs_inv_def by blast
qed

lemma bfs_loop_layers:
  "bfs_inv g s vis queue \<Longrightarrow>
     sorted_wrt (\<lambda>x y. dist g s x \<le> dist g s y) (bfs_loop g vis queue) \<and>
     (\<forall>y \<in> set (bfs_loop g vis queue). queue \<noteq> [] \<and> dist g s (hd queue) \<le> dist g s y) \<and>
     set (bfs_loop g vis queue) \<subseteq> reach g s"
proof (induction g vis queue rule: bfs_loop.induct)
  case (1 g visited)
  then show ?case by simp
next
  case (2 g visited node queue)
  let ?d = "dist g s"
  obtain new where sc: "bfs_scan (adj_get g node) (visited, queue) =
      (visited \<union> set (adj_get g node), queue @ new)"
    and sn: "set new = set (adj_get g node) - visited"
    using bfs_scan_char[of "adj_get g node" visited queue] by blast
  let ?vis' = "visited \<union> set (adj_get g node)"
  let ?out' = "bfs_loop g ?vis' (queue @ new)"
  have eq: "bfs_loop g visited (node # queue) = node # ?out'"
    using sc by simp
  from bfs_inv_step[OF 2(2) sn] have inv': "bfs_inv g s ?vis' (queue @ new)"
    and low: "\<forall>x \<in> set (queue @ new). ?d node \<le> ?d x" by auto
  from 2(1)[OF sc[symmetric] inv']
  have a: "sorted_wrt (\<lambda>x y. ?d x \<le> ?d y) ?out'"
    and b: "\<forall>y \<in> set ?out'. queue @ new \<noteq> [] \<and> ?d (hd (queue @ new)) \<le> ?d y"
    and c: "set ?out' \<subseteq> reach g s" by auto
  have ge: "?d node \<le> ?d y" if "y \<in> set ?out'" for y
  proof -
    from b that have ne: "queue @ new \<noteq> []" and le: "?d (hd (queue @ new)) \<le> ?d y" by auto
    from ne have "hd (queue @ new) \<in> set (queue @ new)" by (rule hd_in_set)
    with low have "?d node \<le> ?d (hd (queue @ new))" by blast
    with le show ?thesis by simp
  qed
  from 2(2) have "node \<in> reach g s" by (auto simp: bfs_inv_def)
  with a c ge show ?case unfolding eq by auto
qed

text \<open>
  Claim C8. For every graph and every start \<open>s\<close>, the sequence that \<^verbatim>\<open>bfs(s)\<close>
  yields is in non-decreasing order of edge-distance from \<open>s\<close>, where the distance of
  each yielded node is the length of a shortest directed path from \<open>s\<close> to it.
\<close>

theorem bfs_layers:
  "(\<forall>i j. i \<le> j \<and> j < length (bfs g (Some s)) \<longrightarrow>
      dist g s (bfs g (Some s) ! i) \<le> dist g s (bfs g (Some s) ! j)) \<and>
   (\<forall>x \<in> set (bfs g (Some s)). (s, x) \<in> edges g ^^ dist g s x \<and>
      (\<forall>n. (s, x) \<in> edges g ^^ n \<longrightarrow> dist g s x \<le> n))"
proof (cases "g = []")
  case True
  then show ?thesis by (simp add: bfs_def)
next
  case False
  let ?out = "bfs g (Some s)"
  from False have eq: "?out = bfs_loop g {s} [s]" by (simp add: bfs_def)
  from bfs_loop_layers[OF bfs_inv_init[of g s]]
  have so: "sorted_wrt (\<lambda>x y. dist g s x \<le> dist g s y) ?out"
    and rc: "set ?out \<subseteq> reach g s" unfolding eq by auto
  have "dist g s (?out ! i) \<le> dist g s (?out ! j)" if "i \<le> j" "j < length ?out" for i j
  proof (cases "i = j")
    case True
    then show ?thesis by simp
  next
    case False
    with that have "i < j" by simp
    from sorted_wrt_nth_less[OF so this that(2)] show ?thesis .
  qed
  moreover have "(s, x) \<in> edges g ^^ dist g s x" if "x \<in> set ?out" for x
    using that rc dist_path[of x g s] by auto
  ultimately show ?thesis using dist_le[where s = s and g = g] by blast
qed

lemma bfs_g_diamond: "bfs g_diamond (Some 2) = [2, 3, 4, 5]"
  by (simp add: g_diamond_def bfs_def adj_get_def)

theorem bfs_layers_witness:
  "bfs g_diamond (Some 2) = [2, 3, 4, 5] \<and>
   (1::nat) \<le> 3 \<and> 3 < length (bfs g_diamond (Some 2)) \<and>
   dist g_diamond 2 3 \<le> dist g_diamond 2 5 \<and>
   5 \<in> set (bfs g_diamond (Some 2)) \<and> (2, 5) \<in> edges g_diamond ^^ dist g_diamond 2 5"
proof -
  have l: "(1::nat) \<le> 3 \<and> 3 < length (bfs g_diamond (Some 2))"
    and m: "5 \<in> set (bfs g_diamond (Some 2))"
    by (simp_all add: bfs_g_diamond)
  from bfs_layers[of g_diamond 2] l
  have "dist g_diamond 2 (bfs g_diamond (Some 2) ! 1) \<le> dist g_diamond 2 (bfs g_diamond (Some 2) ! 3)"
    by blast
  then have "dist g_diamond 2 3 \<le> dist g_diamond 2 5" by (simp add: bfs_g_diamond)
  moreover from bfs_layers[of g_diamond 2] m
  have "(2, 5) \<in> edges g_diamond ^^ dist g_diamond 2 5" by blast
  ultimately show ?thesis using l m bfs_g_diamond by simp
qed

end
